theory Spec2Isabelle
  imports Main "HOL-Library.Word"
begin

unbundle bit_operations_syntax

section \<open>Transport layer: handles, return codes, observable events\<close>

text \<open>
  \<^verbatim>\<open>SOCKET\<close> is Winsock's unsigned pointer-sized handle (64 bits on a 64-bit
  build). \<^verbatim>\<open>INVALID_SOCKET\<close> is \<^verbatim>\<open>(SOCKET)(~0)\<close> and \<^verbatim>\<open>SOCKET_ERROR\<close> is \<^verbatim>\<open>-1\<close>;
  both come from \<^verbatim>\<open>winsock2.h\<close>.
\<close>

type_synonym SOCKET = "64 word"

definition INVALID_SOCKET :: SOCKET where
  "INVALID_SOCKET = NOT 0"

definition SOCKET_ERROR :: int where
  "SOCKET_ERROR = - 1"

text \<open>
  Everything the two programs do to the outside world is recorded, in program order,
  as an event: taking and releasing \<^verbatim>\<open>clients_mutex\<close>, the socket calls with their
  arguments and return values, the lines written to the console and the lines read
  from standard input. A line written with \<^verbatim>\<open>std::endl\<close> is one \<open>Cout\<close> or
  \<open>Cerr\<close> event carrying the text before the line terminator.
\<close>

datatype event =
    Lock
  | Unlock
  | Send SOCKET string int
  | Recv SOCKET int
  | Accept SOCKET
  | CloseSocket SOCKET
  | Spawn SOCKET
  | Cout string
  | Cerr string
  | ReadLine string

text \<open>
  The environment decides what \<^verbatim>\<open>send\<close> returns and what \<^verbatim>\<open>WSAGetLastError\<close>
  reports. Both are arbitrary functions of the moment of the call, the moment being the
  number of events that happened before it.
\<close>

record env =
  send_ret :: "nat \<Rightarrow> int"
  last_error :: "nat \<Rightarrow> int"

text \<open>
  The server's global state: the vector \<^verbatim>\<open>client_sockets\<close>, and the history of events.
\<close>

record world =
  client_sockets :: "SOCKET list"
  trace :: "event list"

definition emit :: "event \<Rightarrow> world \<Rightarrow> world" where
  "emit e w = w\<lparr>trace := trace w @ [e]\<rparr>"

section \<open>Decimal output\<close>

text \<open>\<^verbatim>\<open>std::to_string\<close> and \<^verbatim>\<open>operator<<\<close> on integers print decimal digits.\<close>

definition digit_char :: "nat \<Rightarrow> char" where
  "digit_char d = ''0123456789'' ! d"

function to_string_nat :: "nat \<Rightarrow> string" where
  "to_string_nat n =
     (if n < 10 then [digit_char n]
      else to_string_nat (n div 10) @ [digit_char (n mod 10)])"
  by pat_completeness auto
termination
  by (relation "measure (\<lambda>n. n)") auto

declare to_string_nat.simps [simp del]

definition to_string_int :: "int \<Rightarrow> string" where
  "to_string_int i =
     (if i < 0 then CHR ''-'' # to_string_nat (nat (- i)) else to_string_nat (nat i))"

definition to_string :: "SOCKET \<Rightarrow> string" where
  "to_string s = to_string_nat (unat s)"

section \<open>The server: \<^verbatim>\<open>broadcast_message\<close>\<close>

text \<open>
  One pass of the body of the range-for loop of \<^verbatim>\<open>broadcast_message\<close>: a socket
  different from the sender is sent the message, and a \<^verbatim>\<open>SOCKET_ERROR\<close> result is
  reported on \<^verbatim>\<open>std::cerr\<close>.
\<close>

definition send_one :: "env \<Rightarrow> string \<Rightarrow> SOCKET \<Rightarrow> SOCKET \<Rightarrow> world \<Rightarrow> world" where
  "send_one E message sender_socket socket w =
     (if socket \<noteq> sender_socket then
        (let r = send_ret E (length (trace w));
             w1 = emit (Send socket message r) w
         in if r = SOCKET_ERROR then
              emit (Cerr (''Send failed with error: ''
                          @ to_string_int (last_error E (length (trace w1))))) w1
            else w1)
      else w)"

fun send_each :: "env \<Rightarrow> string \<Rightarrow> SOCKET \<Rightarrow> SOCKET list \<Rightarrow> world \<Rightarrow> world" where
  "send_each E message sender_socket [] w = w"
| "send_each E message sender_socket (socket # rest) w =
     send_each E message sender_socket rest (send_one E message sender_socket socket w)"

text \<open>
  \<^verbatim>\<open>broadcast_message\<close>: the \<^verbatim>\<open>lock_guard\<close> is taken on entry and released when the
  function returns; the loop runs over the vector itself.
\<close>

definition broadcast_message :: "env \<Rightarrow> string \<Rightarrow> SOCKET \<Rightarrow> world \<Rightarrow> world" where
  "broadcast_message E message sender_socket w =
     emit Unlock (send_each E message sender_socket (client_sockets w) (emit Lock w))"

section \<open>The server: \<^verbatim>\<open>handle_client\<close>\<close>

text \<open>
  A call of \<^verbatim>\<open>recv\<close> yields its return value and the contents of the 4096-byte
  buffer after the call. \<^verbatim>\<open>std::string message(buffer, bytes_received)\<close> is the
  first \<^verbatim>\<open>bytes_received\<close> bytes of the buffer.
\<close>

type_synonym recv_result = "int \<times> string"

definition client_id :: "SOCKET \<Rightarrow> string" where
  "client_id client_socket = ''Client '' @ to_string client_socket"

text \<open>The branch \<^verbatim>\<open>bytes_received > 0\<close>.\<close>

definition relay :: "env \<Rightarrow> SOCKET \<Rightarrow> recv_result \<Rightarrow> world \<Rightarrow> world" where
  "relay E client_socket r w =
     (let message = take (nat (fst r)) (snd r);
          broadcast_msg = client_id client_socket @ '': '' @ message;
          w1 = emit (Cout (''Broadcasting: '' @ broadcast_msg)) w
      in broadcast_message E broadcast_msg client_socket w1)"

text \<open>
  The \<^verbatim>\<open>else\<close> branch, in its three parts. First the announcement on the console
  and the block that erases every occurrence of the socket from the vector, under the
  mutex (the erase-remove idiom).
\<close>

definition erase_client :: "SOCKET \<Rightarrow> world \<Rightarrow> world" where
  "erase_client client_socket w =
     emit Unlock
       ((emit Lock w)\<lparr>client_sockets := removeAll client_socket (client_sockets w)\<rparr>)"

definition leave_registry :: "SOCKET \<Rightarrow> world \<Rightarrow> world" where
  "leave_registry client_socket w =
     erase_client client_socket (emit (Cout (client_id client_socket @ '' disconnected.'')) w)"

text \<open>
  Then the departure notice: the sender argument is the \<^verbatim>\<open>int\<close> literal \<^verbatim>\<open>-1\<close>,
  converted to \<^verbatim>\<open>SOCKET\<close>.
\<close>

definition announce_departure :: "env \<Rightarrow> SOCKET \<Rightarrow> world \<Rightarrow> world" where
  "announce_departure E client_socket w =
     broadcast_message E (client_id client_socket @ '' has left the chat.'') (- 1) w"

text \<open>Then \<^verbatim>\<open>closesocket\<close>, after which the loop is left.\<close>

definition disconnect :: "env \<Rightarrow> SOCKET \<Rightarrow> world \<Rightarrow> world" where
  "disconnect E client_socket w =
     emit (CloseSocket client_socket)
       (announce_departure E client_socket (leave_registry client_socket w))"

text \<open>
  A thread that runs an endless loop is, at the end of the observed history,
  either blocked in its next call (\<^verbatim>\<open>recv\<close> or \<^verbatim>\<open>accept\<close>), or it has left the loop.
\<close>

datatype status = Blocked | Returned

text \<open>
  \<^verbatim>\<open>handle_client\<close> on the results of its successive \<^verbatim>\<open>recv\<close> calls. When the
  results are used up the thread is blocked in \<^verbatim>\<open>recv\<close>.
\<close>

fun handle_client :: "env \<Rightarrow> SOCKET \<Rightarrow> recv_result list \<Rightarrow> world \<Rightarrow> world \<times> status" where
  "handle_client E client_socket [] w = (w, Blocked)"
| "handle_client E client_socket (r # rest) w =
     (let w0 = emit (Recv client_socket (fst r)) w
      in if fst r > 0 then handle_client E client_socket rest (relay E client_socket r w0)
         else (disconnect E client_socket w0, Returned))"

section \<open>The server: the accept loop of \<^verbatim>\<open>main\<close>\<close>

text \<open>The block that appends the accepted socket to the vector, under the mutex.\<close>

definition register_client :: "SOCKET \<Rightarrow> world \<Rightarrow> world" where
  "register_client client_socket w =
     emit Unlock ((emit Lock w)\<lparr>client_sockets := client_sockets w @ [client_socket]\<rparr>)"

text \<open>One iteration of the \<^verbatim>\<open>while (true)\<close> loop, given what \<^verbatim>\<open>accept\<close> returned.\<close>

definition accept_iter :: "env \<Rightarrow> SOCKET \<Rightarrow> world \<Rightarrow> world" where
  "accept_iter E client_socket w =
     (let w0 = emit (Accept client_socket) w
      in if client_socket = INVALID_SOCKET then
           emit (Cerr (''Accept failed with error: ''
                       @ to_string_int (last_error E (length (trace w0))))) w0
         else
           emit (Spawn client_socket)
             (register_client client_socket (emit (Cout ''New client connected.'') w0)))"

text \<open>
  The loop on the results of its successive \<^verbatim>\<open>accept\<close> calls. The loop has no
  \<^verbatim>\<open>break\<close> and no \<^verbatim>\<open>return\<close>: when the results are used up the thread is blocked
  in \<^verbatim>\<open>accept\<close>.
\<close>

fun accept_loop :: "env \<Rightarrow> SOCKET list \<Rightarrow> world \<Rightarrow> world \<times> status" where
  "accept_loop E [] w = (w, Blocked)"
| "accept_loop E (client_socket # rest) w = accept_loop E rest (accept_iter E client_socket w)"

section \<open>The server: threads running side by side\<close>

text \<open>
  The main thread and the detached handler threads share \<^verbatim>\<open>client_sockets\<close>. They
  read and write it, and call \<^verbatim>\<open>send\<close>, only inside a \<^verbatim>\<open>lock_guard\<close> block, and
  the mutex lets the blocks of different threads run only one after the other. A step of
  the system is one such block together with the calls its thread makes next to it
  (\<^verbatim>\<open>accept\<close>, \<^verbatim>\<open>recv\<close>, console output, \<^verbatim>\<open>closesocket\<close>, the start of a thread),
  so the registry and the sends of an execution are those of a sequence of steps. A
  handler is at one of four places: before a \<^verbatim>\<open>recv\<close>, after the erase block, after
  the departure broadcast, or finished.
\<close>

datatype place = Receiving | Erased | Notified | Finished

record system =
  shared :: world
  handlers :: "(SOCKET \<times> place) list"

text \<open>
  The next step of a handler from its place; the \<^verbatim>\<open>recv\<close> result is used only at
  \<open>Receiving\<close>.
\<close>

fun handler_step :: "env \<Rightarrow> SOCKET \<Rightarrow> place \<Rightarrow> recv_result \<Rightarrow> world \<Rightarrow> world \<times> place" where
  "handler_step E c Receiving r w =
     (let w0 = emit (Recv c (fst r)) w
      in if fst r > 0 then (relay E c r w0, Receiving)
         else (leave_registry c w0, Erased))"
| "handler_step E c Erased r w = (announce_departure E c w, Notified)"
| "handler_step E c Notified r w = (emit (CloseSocket c) w, Finished)"
| "handler_step E c Finished r w = (w, Finished)"

text \<open>
  A step of the system: the main thread runs one iteration of its loop on an
  \<^verbatim>\<open>accept\<close> result (a successful one starts a handler), or the handler with a given
  index takes its next step.
\<close>

datatype action = MainAccept SOCKET | HandlerStep nat recv_result

fun step :: "env \<Rightarrow> action \<Rightarrow> system \<Rightarrow> system" where
  "step E (MainAccept c) S =
     \<lparr>shared = accept_iter E c (shared S),
      handlers = (if c = INVALID_SOCKET then handlers S else handlers S @ [(c, Receiving)])\<rparr>"
| "step E (HandlerStep i r) S =
     (if i < length (handlers S) then
        (let (c, p) = handlers S ! i;
             (w', p') = handler_step E c p r (shared S)
         in \<lparr>shared = w', handlers = (handlers S)[i := (c, p')]\<rparr>)
      else S)"

fun run :: "env \<Rightarrow> action list \<Rightarrow> system \<Rightarrow> system" where
  "run E [] S = S"
| "run E (a # as) S = run E as (step E a S)"

text \<open>A sequence of steps in which the handler with index \<open>i\<close> takes none.\<close>

definition others :: "nat \<Rightarrow> action list \<Rightarrow> bool" where
  "others i acts =
     list_all (\<lambda>a. case a of MainAccept c \<Rightarrow> True | HandlerStep j r \<Rightarrow> j \<noteq> i) acts"

text \<open>
  The transport hands out, on a successful \<^verbatim>\<open>accept\<close>, a handle that no connection
  still open has: here, the handle of no handler that has not yet called
  \<^verbatim>\<open>closesocket\<close>.
\<close>

definition open_handles :: "system \<Rightarrow> SOCKET list" where
  "open_handles S = map fst (filter (\<lambda>h. snd h \<noteq> Finished) (handlers S))"

fun fresh_accepts :: "env \<Rightarrow> action list \<Rightarrow> system \<Rightarrow> bool" where
  "fresh_accepts E [] S = True"
| "fresh_accepts E (a # as) S =
     ((case a of MainAccept c \<Rightarrow> c = INVALID_SOCKET \<or> c \<notin> set (open_handles S)
               | HandlerStep i r \<Rightarrow> True)
      \<and> fresh_accepts E as (step E a S))"

definition initial :: system where
  "initial = \<lparr>shared = \<lparr>client_sockets = [], trace = []\<rparr>, handlers = []\<rparr>"

text \<open>
  The state of the registry that the accept loop and the handlers keep up: no handle
  twice, no \<^verbatim>\<open>INVALID_SOCKET\<close>, and every handle in it has a handler that is
  receiving.
\<close>

definition registry_ok :: "system \<Rightarrow> bool" where
  "registry_ok S \<longleftrightarrow>
     distinct (client_sockets (shared S))
     \<and> INVALID_SOCKET \<notin> set (client_sockets (shared S))
     \<and> (\<forall>d \<in> set (client_sockets (shared S)). (d, Receiving) \<in> set (handlers S))"

section \<open>The client: \<^verbatim>\<open>send_messages\<close>\<close>

text \<open>
  \<^verbatim>\<open>std::getline\<close> on what is left of standard input: it fails when nothing is left;
  otherwise it takes the characters before the first newline as the line and discards
  that newline.
\<close>

fun getline :: "string \<Rightarrow> (string \<times> string) option" where
  "getline [] = None"
| "getline (c # cs) =
     Some (takeWhile (\<lambda>x. x \<noteq> CHR 0x0A) (c # cs),
           drop 1 (dropWhile (\<lambda>x. x \<noteq> CHR 0x0A) (c # cs)))"

text \<open>
  The \<^verbatim>\<open>while (std::getline(std::cin, line))\<close> loop on what is left of standard input;
  the client's state is its history of events. A failed \<^verbatim>\<open>send\<close> leaves the loop.
\<close>

function send_loop :: "env \<Rightarrow> SOCKET \<Rightarrow> string \<Rightarrow> event list \<Rightarrow> event list" where
  "send_loop E sock cin t =
     (case getline cin of
        None \<Rightarrow> t
      | Some (line, rest) \<Rightarrow>
          (let t0 = t @ [ReadLine line]
           in if line \<noteq> [] then
                (let r = send_ret E (length t0);
                     t1 = t0 @ [Send sock line r]
                 in if r = SOCKET_ERROR then
                      t1 @ [Cerr (''Send failed with error: ''
                                  @ to_string_int (last_error E (length t1)))]
                    else send_loop E sock rest (t1 @ [Cout ''> '']))
              else send_loop E sock rest (t0 @ [Cout ''> ''])))"
  by pat_completeness auto
termination
proof -
  have shorter: "length rest < length cin" if "getline cin = Some (line, rest)"
    for cin line rest
  proof (cases cin)
    case Nil
    with that show ?thesis by simp
  next
    case (Cons c cs)
    with that have "rest = drop 1 (dropWhile (\<lambda>x. x \<noteq> CHR 0x0A) (c # cs))" by simp
    moreover have "length (dropWhile (\<lambda>x. x \<noteq> CHR 0x0A) (c # cs)) \<le> length (c # cs)"
      by (rule length_dropWhile_le)
    ultimately show ?thesis using Cons by simp
  qed
  show ?thesis
    by (relation "measure (\<lambda>(E, sock, cin, t). length cin)") (auto dest: shorter)
qed

declare send_loop.simps [simp del]

definition send_messages :: "env \<Rightarrow> SOCKET \<Rightarrow> string \<Rightarrow> event list \<Rightarrow> event list" where
  "send_messages E sock cin t = send_loop E sock cin (t @ [Cout ''> ''])"

section \<open>Observations on a history of events\<close>

text \<open>The events a run added to the history of a world.\<close>

definition events_since :: "world \<Rightarrow> world \<Rightarrow> event list" where
  "events_since w w' = drop (length (trace w)) (trace w')"

text \<open>The \<^verbatim>\<open>send\<close> calls of a history, each with its target and its bytes.\<close>

definition send_of :: "event \<Rightarrow> (SOCKET \<times> string) list" where
  "send_of e = (case e of Send c m r \<Rightarrow> [(c, m)] | _ \<Rightarrow> [])"

definition sends :: "event list \<Rightarrow> (SOCKET \<times> string) list" where
  "sends es = concat (map send_of es)"

definition recipients :: "event list \<Rightarrow> SOCKET list" where
  "recipients es = map fst (sends es)"



text \<open>
  Every \<^verbatim>\<open>send\<close> that returned \<^verbatim>\<open>SOCKET_ERROR\<close> is followed at once by a line on
  \<^verbatim>\<open>std::cerr\<close>.
\<close>

fun failures_logged :: "event list \<Rightarrow> bool" where
  "failures_logged [] = True"
| "failures_logged (e # es) =
     ((case e of
         Send c m r \<Rightarrow>
           (if r = SOCKET_ERROR then (case es of Cerr x # es' \<Rightarrow> True | _ \<Rightarrow> False)
            else True)
       | _ \<Rightarrow> True)
      \<and> failures_logged es)"

text \<open>
  The events one pass of the loop body of \<^verbatim>\<open>broadcast_message\<close> adds when \<open>k\<close>
  events came before, and the events of the whole loop.
\<close>

definition send_one_events :: "env \<Rightarrow> string \<Rightarrow> SOCKET \<Rightarrow> SOCKET \<Rightarrow> nat \<Rightarrow> event list" where
  "send_one_events E m s c k =
     (if c \<noteq> s then
        (if send_ret E k = SOCKET_ERROR then
           [Send c m (send_ret E k),
            Cerr (''Send failed with error: '' @ to_string_int (last_error E (Suc k)))]
         else [Send c m (send_ret E k)])
      else [])"

fun send_each_events :: "env \<Rightarrow> string \<Rightarrow> SOCKET \<Rightarrow> SOCKET list \<Rightarrow> nat \<Rightarrow> event list" where
  "send_each_events E m s [] k = []"
| "send_each_events E m s (c # cs) k =
     send_one_events E m s c k
     @ send_each_events E m s cs (k + length (send_one_events E m s c k))"

text \<open>The lines written to \<^verbatim>\<open>std::cerr\<close>.\<close>

definition cerr_of :: "event \<Rightarrow> string list" where
  "cerr_of e = (case e of Cerr x \<Rightarrow> [x] | _ \<Rightarrow> [])"

definition errors :: "event list \<Rightarrow> string list" where
  "errors es = concat (map cerr_of es)"

text \<open>The values returned by \<^verbatim>\<open>accept\<close>, and the handler threads started.\<close>

definition accept_of :: "event \<Rightarrow> SOCKET list" where
  "accept_of e = (case e of Accept c \<Rightarrow> [c] | _ \<Rightarrow> [])"

definition accepts :: "event list \<Rightarrow> SOCKET list" where
  "accepts es = concat (map accept_of es)"

definition spawn_of :: "event \<Rightarrow> SOCKET list" where
  "spawn_of e = (case e of Spawn c \<Rightarrow> [c] | _ \<Rightarrow> [])"

definition spawns :: "event list \<Rightarrow> SOCKET list" where
  "spawns es = concat (map spawn_of es)"

text \<open>An event of the send loop: a \<^verbatim>\<open>send\<close> or the report of its failure.\<close>

definition is_send_or_log :: "event \<Rightarrow> bool" where
  "is_send_or_log e = (case e of Send c m r \<Rightarrow> True | Cerr x \<Rightarrow> True | _ \<Rightarrow> False)"

text \<open>The lines \<^verbatim>\<open>std::getline\<close> returned to the client's loop.\<close>

definition readline_of :: "event \<Rightarrow> string list" where
  "readline_of e = (case e of ReadLine l \<Rightarrow> [l] | _ \<Rightarrow> [])"

definition lines_read :: "event list \<Rightarrow> string list" where
  "lines_read es = concat (map readline_of es)"

text \<open>
  The lines of standard input: what repeated calls of \<^verbatim>\<open>std::getline\<close> return until
  one fails.
\<close>

function all_lines :: "string \<Rightarrow> string list" where
  "all_lines cin =
     (case getline cin of None \<Rightarrow> [] | Some (line, rest) \<Rightarrow> line # all_lines rest)"
  by pat_completeness auto
termination
proof (relation "measure length")
  show "wf (measure length)" by simp
next
  fix cin :: string and x2 line rest
  assume "getline cin = Some x2" and "(line, rest) = x2"
  then obtain c cs where "cin = c # cs"
    and "rest = drop 1 (dropWhile (\<lambda>x. x \<noteq> CHR 0x0A) (c # cs))"
    by (cases cin) auto
  moreover have "length (dropWhile (\<lambda>x. x \<noteq> CHR 0x0A) (c # cs)) \<le> length (c # cs)"
    by (rule length_dropWhile_le)
  ultimately show "(rest, cin) \<in> measure length" by simp
qed

declare all_lines.simps [simp del]

text \<open>
  What the events of the client's loop on an input satisfy: the payloads sent are the
  non-empty lines read, no line read holds a newline, the lines read are the first lines
  of the input, and all of them when no \<^verbatim>\<open>send\<close> fails.
\<close>

definition loop_ok :: "env \<Rightarrow> SOCKET \<Rightarrow> string \<Rightarrow> event list \<Rightarrow> bool" where
  "loop_ok E sock cin es \<longleftrightarrow>
     sends es = map (\<lambda>l. (sock, l)) (filter (\<lambda>l. l \<noteq> []) (lines_read es))
     \<and> (\<forall>l \<in> set (lines_read es). CHR 0x0A \<notin> set l)
     \<and> lines_read es = take (length (lines_read es)) (all_lines cin)
     \<and> ((\<forall>k. send_ret E k \<noteq> SOCKET_ERROR) \<longrightarrow> lines_read es = all_lines cin)"

section \<open>Sample worlds and environments\<close>

definition three_clients :: world where
  "three_clients = \<lparr>client_sockets = [1, 2, 3], trace = []\<rparr>"

text \<open>
  An environment in which the \<^verbatim>\<open>send\<close> made after two events fails with
  \<^verbatim>\<open>WSAECONNRESET\<close> and every other \<^verbatim>\<open>send\<close> transmits five bytes.
\<close>

definition flaky :: env where
  "flaky = \<lparr>send_ret = (\<lambda>k. if k = 2 then - 1 else 5), last_error = (\<lambda>k. 10054)\<rparr>"

definition one_client :: world where
  "one_client = \<lparr>client_sockets = [5], trace = []\<rparr>"

text \<open>
  An environment in which every error reported is \<^verbatim>\<open>WSAENOTSOCK\<close>, as after the
  listening socket has been closed.
\<close>

definition closed_listener :: env where
  "closed_listener = \<lparr>send_ret = (\<lambda>k. 0), last_error = (\<lambda>k. 10038)\<rparr>"

text \<open>A \<^verbatim>\<open>recv\<close> that put the five bytes of \<^verbatim>\<open>hello\<close> into the buffer.\<close>

definition chunk_hello :: recv_result where
  "chunk_hello = (5, ''hello'' @ replicate 4091 (CHR 0x00))"

text \<open>Standard input holding a line, an empty line and another line.\<close>

definition typed :: string where
  "typed = ''hi'' @ [CHR 0x0A, CHR 0x0A] @ ''yo'' @ [CHR 0x0A]"

text \<open>An environment in which every \<^verbatim>\<open>send\<close> transmits two bytes.\<close>

definition reliable :: env where
  "reliable = \<lparr>send_ret = (\<lambda>k. 2), last_error = (\<lambda>k. 0)\<rparr>"

text \<open>Three registered clients with their handlers, all waiting in \<^verbatim>\<open>recv\<close>.\<close>

definition three_sessions :: system where
  "three_sessions =
     \<lparr>shared = three_clients, handlers = [(1, Receiving), (2, Receiving), (3, Receiving)]\<rparr>"

text \<open>A \<^verbatim>\<open>recv\<close> that reports the orderly close of the stream.\<close>

definition eof :: recv_result where
  "eof = (0, replicate 4096 (CHR 0x00))"

text \<open>
  What may follow the erasure of client 2: client 1 sends a chunk, the handler of client 2
  announces the departure, a new client 7 is accepted, client 3 sends a chunk, the handler
  of client 2 closes its socket.
\<close>

definition after_leaving :: "action list" where
  "after_leaving =
     [HandlerStep 0 chunk_hello, HandlerStep 1 eof, MainAccept 7, HandlerStep 2 chunk_hello,
      HandlerStep 1 eof]"

text \<open>
  What may happen between the erasure of client 2 and its departure notice: client 3
  leaves as well and a new client 7 is accepted; and between the notice and
  \<^verbatim>\<open>closesocket\<close>: client 1 sends a chunk. Then the states the system goes through.
\<close>

definition in_the_gap :: "action list" where
  "in_the_gap = [HandlerStep 2 eof, MainAccept 7]"

definition after_notice :: "action list" where
  "after_notice = [HandlerStep 0 chunk_hello]"

definition gap_erased :: system where
  "gap_erased = step flaky (HandlerStep 1 eof) three_sessions"

definition gap_before_notice :: system where
  "gap_before_notice = run flaky in_the_gap gap_erased"

definition gap_notified :: system where
  "gap_notified = step flaky (HandlerStep 1 eof) gap_before_notice"

definition gap_before_close :: system where
  "gap_before_close = run flaky after_notice gap_notified"

definition gap_closed :: system where
  "gap_closed = step flaky (HandlerStep 1 eof) gap_before_close"

section \<open>Basic facts\<close>

lemma to_string_int_10054: "to_string_int 10054 = ''10054''"
  by (simp add: to_string_int_def to_string_nat.simps digit_char_def)

lemma to_string_int_10038: "to_string_int 10038 = ''10038''"
  by (simp add: to_string_int_def to_string_nat.simps digit_char_def)

lemma client_id_2: "client_id 2 = ''Client 2''"
  by (simp add: client_id_def to_string_def to_string_nat.simps digit_char_def)

lemma chunk_hello_facts:
  "fst chunk_hello = 5" "length (snd chunk_hello) = 4096"
  "take 5 (snd chunk_hello) = ''hello''"
  by (simp_all add: chunk_hello_def)

lemma three_clients_sockets: "client_sockets three_clients = [1, 2, 3]"
  by (simp add: three_clients_def)

lemma sends_append [simp]: "sends (xs @ ys) = sends xs @ sends ys"
  by (simp add: sends_def)

lemma sends_Nil [simp]: "sends [] = []"
  by (simp add: sends_def)

lemma sends_Cons [simp]: "sends (e # es) = send_of e @ sends es"
  by (simp add: sends_def)

lemma client_sockets_emit [simp]: "client_sockets (emit e w) = client_sockets w"
  by (simp add: emit_def)

lemma trace_emit [simp]: "trace (emit e w) = trace w @ [e]"
  by (simp add: emit_def)

lemma events_since_append: "trace w' = trace w @ es \<Longrightarrow> events_since w w' = es"
  by (simp add: events_since_def)

lemma count_list_distinct:
  "distinct xs \<Longrightarrow> count_list xs x = (if x \<in> set xs then 1 else 0)"
  by (induction xs) auto

section \<open>Properties of \<^verbatim>\<open>broadcast_message\<close>\<close>

lemma send_one_trace:
  "trace (send_one E m s c w) = trace w @ send_one_events E m s c (length (trace w))"
  by (simp add: send_one_def send_one_events_def Let_def)

lemma send_one_sockets [simp]: "client_sockets (send_one E m s c w) = client_sockets w"
  by (simp add: send_one_def Let_def)

lemma send_each_trace:
  "trace (send_each E m s cs w) = trace w @ send_each_events E m s cs (length (trace w))"
  by (induction cs arbitrary: w) (simp_all add: send_one_trace)

lemma send_each_sockets [simp]: "client_sockets (send_each E m s cs w) = client_sockets w"
  by (induction cs arbitrary: w) simp_all

lemma broadcast_message_trace:
  "trace (broadcast_message E m s w) =
     trace w @ [Lock] @ send_each_events E m s (client_sockets w) (Suc (length (trace w)))
       @ [Unlock]"
  by (simp add: broadcast_message_def send_each_trace)

lemma broadcast_message_events:
  "events_since w (broadcast_message E m s w) =
     [Lock] @ send_each_events E m s (client_sockets w) (Suc (length (trace w))) @ [Unlock]"
  by (rule events_since_append) (rule broadcast_message_trace)

lemma broadcast_message_sockets [simp]:
  "client_sockets (broadcast_message E m s w) = client_sockets w"
  by (simp add: broadcast_message_def)

lemma sends_send_one_events:
  "sends (send_one_events E m s c k) = (if c \<noteq> s then [(c, m)] else [])"
  by (simp add: send_one_events_def send_of_def)

lemma sends_send_each_events:
  "sends (send_each_events E m s cs k) = map (\<lambda>c. (c, m)) (filter (\<lambda>c. c \<noteq> s) cs)"
  by (induction cs arbitrary: k) (simp_all add: sends_send_one_events)

lemma broadcast_sends:
  "sends (events_since w (broadcast_message E m s w))
     = map (\<lambda>c. (c, m)) (filter (\<lambda>c. c \<noteq> s) (client_sockets w))"
  by (simp add: broadcast_message_events sends_send_each_events send_of_def)

lemma recipients_broadcast:
  "recipients (events_since w (broadcast_message E m s w))
     = filter (\<lambda>c. c \<noteq> s) (client_sockets w)"
  by (simp add: recipients_def broadcast_sends comp_def)





lemma failures_logged_send_one:
  "failures_logged (send_one_events E m s c k @ rest) = failures_logged rest"
  by (simp add: send_one_events_def)

lemma failures_logged_send_each:
  "failures_logged (send_each_events E m s cs k @ rest) = failures_logged rest"
  by (induction cs arbitrary: k) (simp_all add: failures_logged_send_one)


lemma three_clients_from_9:
  "events_since three_clients (broadcast_message flaky ''hi'' 9 three_clients) =
     [Lock, Send 1 ''hi'' 5, Send 2 ''hi'' (- 1), Cerr ''Send failed with error: 10054'',
      Send 3 ''hi'' 5, Unlock]"
  by (simp add: events_since_def broadcast_message_def three_clients_def flaky_def
      send_one_def Let_def SOCKET_ERROR_def emit_def to_string_int_10054)

text \<open>
  C1. A broadcast with sender \<open>s\<close> makes one \<^verbatim>\<open>send\<close> of the message for each entry
  of the registry that differs from \<open>s\<close>, in the order of the registry, and none to
  \<open>s\<close>. When no handle is registered twice, every registered connection other than
  \<open>s\<close> is sent the message exactly once.
\<close>

theorem broadcast_message_delivery:
  "sends (events_since w (broadcast_message E message s w))
     = map (\<lambda>c. (c, message)) (filter (\<lambda>c. c \<noteq> s) (client_sockets w))
   \<and> count_list (recipients (events_since w (broadcast_message E message s w))) s = 0
   \<and> (distinct (client_sockets w) \<longrightarrow>
        (\<forall>c \<in> set (client_sockets w). c \<noteq> s \<longrightarrow>
           count_list (recipients (events_since w (broadcast_message E message s w))) c = 1))"
  by (simp add: broadcast_sends recipients_broadcast count_list_distinct)

theorem broadcast_message_delivery_witness:
  "distinct (client_sockets three_clients)
   \<and> sends (events_since three_clients (broadcast_message flaky ''hi'' 1 three_clients))
       = [(2, ''hi''), (3, ''hi'')]
   \<and> count_list
        (recipients (events_since three_clients (broadcast_message flaky ''hi'' 1 three_clients)))
        1 = 0
   \<and> count_list
        (recipients (events_since three_clients (broadcast_message flaky ''hi'' 1 three_clients)))
        2 = 1
   \<and> count_list
        (recipients (events_since three_clients (broadcast_message flaky ''hi'' 1 three_clients)))
        3 = 1"
proof -
  have regs: "client_sockets three_clients = [1, 2, 3]"
    by (simp add: three_clients_def)
  show ?thesis
    using broadcast_message_delivery [of three_clients flaky "''hi''" 1]
    unfolding regs by simp
qed



text \<open>
  C4. Whatever the \<^verbatim>\<open>send\<close> calls of a broadcast return, each failed one is logged,
  every registered connection other than the sender is still sent to, and the registry
  is the same after the broadcast as before.
\<close>

theorem broadcast_message_failure_isolated:
  "failures_logged (events_since w (broadcast_message E message s w))
   \<and> recipients (events_since w (broadcast_message E message s w))
       = filter (\<lambda>c. c \<noteq> s) (client_sockets w)
   \<and> client_sockets (broadcast_message E message s w) = client_sockets w"
proof -
  have "failures_logged (events_since w (broadcast_message E message s w))"
    by (simp add: broadcast_message_events failures_logged_send_each)
  then show ?thesis
    by (simp add: recipients_broadcast)
qed

theorem broadcast_message_failure_isolated_witness:
  "events_since three_clients (broadcast_message flaky ''hi'' 9 three_clients)
     = [Lock, Send 1 ''hi'' 5, Send 2 ''hi'' (- 1), Cerr ''Send failed with error: 10054'',
        Send 3 ''hi'' 5, Unlock]
   \<and> failures_logged (events_since three_clients (broadcast_message flaky ''hi'' 9 three_clients))
   \<and> recipients (events_since three_clients (broadcast_message flaky ''hi'' 9 three_clients))
       = [1, 2, 3]
   \<and> client_sockets (broadcast_message flaky ''hi'' 9 three_clients) = [1, 2, 3]"
proof -
  have regs: "client_sockets three_clients = [1, 2, 3]"
    by (simp add: three_clients_def)
  show ?thesis
    using broadcast_message_failure_isolated [of three_clients flaky "''hi''" 9]
    unfolding three_clients_from_9 regs by (simp add: SOCKET_ERROR_def)
qed

section \<open>Properties of \<^verbatim>\<open>handle_client\<close>\<close>

lemma minus_one_invalid: "(- 1 :: SOCKET) = INVALID_SOCKET"
  by (simp add: INVALID_SOCKET_def)

lemma send_one_events_kind: "list_all is_send_or_log (send_one_events E m s c k)"
  by (simp add: send_one_events_def is_send_or_log_def)

lemma send_each_events_kind: "list_all is_send_or_log (send_each_events E m s cs k)"
  by (induction cs arbitrary: k) (simp_all add: send_one_events_kind)

lemma relay_trace:
  "trace (relay E c r w) =
     trace w @ [Cout (''Broadcasting: '' @ client_id c @ '': '' @ take (nat (fst r)) (snd r)), Lock]
     @ send_each_events E (client_id c @ '': '' @ take (nat (fst r)) (snd r)) c (client_sockets w)
         (Suc (Suc (length (trace w))))
     @ [Unlock]"
  by (simp add: relay_def Let_def broadcast_message_trace)

lemma relay_sockets [simp]: "client_sockets (relay E c r w) = client_sockets w"
  by (simp add: relay_def Let_def)

lemma erase_client_trace: "trace (erase_client c w) = trace w @ [Lock, Unlock]"
  by (simp add: erase_client_def emit_def)

lemma erase_client_sockets [simp]:
  "client_sockets (erase_client c w) = removeAll c (client_sockets w)"
  by (simp add: erase_client_def emit_def)

lemma leave_registry_trace:
  "trace (leave_registry c w) = trace w @ [Cout (client_id c @ '' disconnected.''), Lock, Unlock]"
  by (simp add: leave_registry_def erase_client_trace)

lemma leave_registry_sockets [simp]:
  "client_sockets (leave_registry c w) = removeAll c (client_sockets w)"
  by (simp add: leave_registry_def)

lemma announce_departure_trace:
  "trace (announce_departure E c w) =
     trace w @ [Lock]
     @ send_each_events E (client_id c @ '' has left the chat.'') (- 1) (client_sockets w)
         (Suc (length (trace w)))
     @ [Unlock]"
  by (simp add: announce_departure_def broadcast_message_trace)

lemma announce_departure_sockets [simp]:
  "client_sockets (announce_departure E c w) = client_sockets w"
  by (simp add: announce_departure_def)

lemma disconnect_trace:
  "trace (disconnect E c w) =
     trace w @ [Cout (client_id c @ '' disconnected.''), Lock, Unlock, Lock]
     @ send_each_events E (client_id c @ '' has left the chat.'') (- 1)
         (removeAll c (client_sockets w)) (Suc (Suc (Suc (Suc (length (trace w))))))
     @ [Unlock, CloseSocket c]"
  by (simp add: disconnect_def announce_departure_trace leave_registry_trace)

lemma disconnect_sockets [simp]:
  "client_sockets (disconnect E c w) = removeAll c (client_sockets w)"
  by (simp add: disconnect_def)

lemma filter_valid:
  "INVALID_SOCKET \<notin> set cs \<Longrightarrow> filter (\<lambda>d. d \<noteq> - 1) cs = cs"
  by (induction cs) (auto simp: minus_one_invalid)

lemma Lock_free_send_one: "filter (\<lambda>e. e = Lock) (send_one_events E m s c k) = []"
  by (simp add: send_one_events_def)

lemma Lock_free_send_each: "filter (\<lambda>e. e = Lock) (send_each_events E m s cs k) = []"
  by (induction cs arbitrary: k) (simp_all add: Lock_free_send_one)

text \<open>
  C8. When \<^verbatim>\<open>recv\<close> returns \<open>n > 0\<close> (at most 4096, the size of the buffer), the
  handler makes one broadcast, whose message is \<^verbatim>\<open>Client <handle>: \<close> followed by the
  first \<open>n\<close> bytes of the buffer as they are, sent to every registered socket other
  than its own; then it goes on with the next \<^verbatim>\<open>recv\<close>.
\<close>

theorem handle_client_relays_chunk:
  assumes "0 < fst r" and "fst r \<le> 4096" and "length (snd r) = 4096"
  shows "snd (handle_client E c [r] w) = Blocked
    \<and> handle_client E c (r # rest) w
        = handle_client E c rest (fst (handle_client E c [r] w))
    \<and> sends (events_since w (fst (handle_client E c [r] w)))
        = map (\<lambda>d. (d, client_id c @ '': '' @ take (nat (fst r)) (snd r)))
            (filter (\<lambda>d. d \<noteq> c) (client_sockets w))
    \<and> length (take (nat (fst r)) (snd r)) = nat (fst r)
    \<and> length (filter (\<lambda>e. e = Lock) (events_since w (fst (handle_client E c [r] w)))) = 1
    \<and> client_sockets (fst (handle_client E c [r] w)) = client_sockets w"
proof -
  let ?w' = "relay E c r (emit (Recv c (fst r)) w)"
  let ?msg = "client_id c @ '': '' @ take (nat (fst r)) (snd r)"
  have one: "handle_client E c [r] w = (?w', Blocked)"
    using assms(1) by (simp add: Let_def)
  have more: "handle_client E c (r # rest) w = handle_client E c rest ?w'"
    using assms(1) by (simp add: Let_def)
  have ev: "events_since w ?w' =
      [Recv c (fst r), Cout (''Broadcasting: '' @ ?msg), Lock]
      @ send_each_events E ?msg c (client_sockets w) (Suc (Suc (Suc (length (trace w))))) @ [Unlock]"
    by (rule events_since_append) (simp add: relay_trace)
  have s: "sends (events_since w ?w')
      = map (\<lambda>d. (d, ?msg)) (filter (\<lambda>d. d \<noteq> c) (client_sockets w))"
    unfolding ev by (simp add: sends_send_each_events send_of_def)
  have l: "length (filter (\<lambda>e. e = Lock) (events_since w ?w')) = 1"
    unfolding ev by (simp add: Lock_free_send_each)
  have n: "length (take (nat (fst r)) (snd r)) = nat (fst r)"
    using assms by simp
  show ?thesis
    unfolding one more using s l n by simp
qed

theorem handle_client_relays_chunk_witness:
  "0 < fst chunk_hello \<and> fst chunk_hello \<le> 4096 \<and> length (snd chunk_hello) = 4096
   \<and> snd (handle_client flaky 2 [chunk_hello] three_clients) = Blocked
   \<and> sends (events_since three_clients (fst (handle_client flaky 2 [chunk_hello] three_clients)))
       = [(1, ''Client 2: hello''), (3, ''Client 2: hello'')]
   \<and> client_sockets (fst (handle_client flaky 2 [chunk_hello] three_clients)) = [1, 2, 3]"
  using handle_client_relays_chunk [of chunk_hello flaky 2 three_clients "[]"]
  by (simp del: handle_client.simps add: chunk_hello_facts three_clients_sockets client_id_2)

text \<open>
  A handler whose closing branch runs with no step of another thread in between: the
  socket is erased, the notice goes to every socket left, the socket is closed and the
  function returns, whatever \<^verbatim>\<open>recv\<close> would return later.
\<close>

lemma handle_client_closing_alone:
  assumes "fst r \<le> 0" and "INVALID_SOCKET \<notin> set (client_sockets w)"
  shows "handle_client E c (r # rest) w = handle_client E c [r] w
    \<and> snd (handle_client E c [r] w) = Returned
    \<and> client_sockets (fst (handle_client E c [r] w)) = removeAll c (client_sockets w)
    \<and> (\<exists>es. events_since w (fst (handle_client E c [r] w))
               = [Recv c (fst r), Cout (client_id c @ '' disconnected.''), Lock, Unlock, Lock]
                 @ es @ [Unlock, CloseSocket c]
             \<and> list_all is_send_or_log es
             \<and> sends es = map (\<lambda>d. (d, client_id c @ '' has left the chat.''))
                            (removeAll c (client_sockets w)))
    \<and> (distinct (client_sockets w) \<longrightarrow>
         (\<forall>d \<in> set (client_sockets w). d \<noteq> c \<longrightarrow>
            count_list (recipients (events_since w (fst (handle_client E c [r] w)))) d = 1))
    \<and> count_list (recipients (events_since w (fst (handle_client E c [r] w)))) c = 0"
proof -
  let ?w' = "disconnect E c (emit (Recv c (fst r)) w)"
  let ?msg = "client_id c @ '' has left the chat.''"
  let ?left = "removeAll c (client_sockets w)"
  let ?es = "send_each_events E ?msg (- 1) ?left (Suc (Suc (Suc (Suc (Suc (length (trace w)))))))"
  have one: "handle_client E c (r # rest) w = (?w', Returned)" for rest
    using assms(1) by (simp add: Let_def)
  have valid: "INVALID_SOCKET \<notin> set ?left"
    using assms(2) by simp
  have ev: "events_since w ?w' =
      [Recv c (fst r), Cout (client_id c @ '' disconnected.''), Lock, Unlock, Lock]
      @ ?es @ [Unlock, CloseSocket c]"
    by (rule events_since_append) (simp add: disconnect_trace)
  have s: "sends ?es = map (\<lambda>d. (d, ?msg)) ?left"
    by (simp add: sends_send_each_events filter_valid [OF valid])
  have k: "list_all is_send_or_log ?es"
    by (rule send_each_events_kind)
  have rc: "recipients (events_since w ?w') = ?left"
    unfolding ev by (simp add: recipients_def s send_of_def comp_def)
  have ex: "\<exists>es. events_since w ?w'
               = [Recv c (fst r), Cout (client_id c @ '' disconnected.''), Lock, Unlock, Lock]
                 @ es @ [Unlock, CloseSocket c]
             \<and> list_all is_send_or_log es
             \<and> sends es = map (\<lambda>d. (d, ?msg)) ?left"
    using ev k s by blast
  have cnt: "count_list ?left d = 1" if "distinct (client_sockets w)" "d \<in> set (client_sockets w)" "d \<noteq> c" for d
    using that by (simp add: count_list_distinct distinct_removeAll)
  show ?thesis
    unfolding one using ex cnt by (simp add: rc)
qed

section \<open>Properties of the registry operations\<close>

text \<open>
  C6. Erasing a socket a second time leaves the registry as the first erasure left it;
  erasing a socket that is not registered leaves the registry as it is; neither writes
  an error nor sends anything, so no departure notice comes from a repeated removal.
\<close>

theorem erase_client_idempotent:
  "client_sockets (erase_client c (erase_client c w)) = client_sockets (erase_client c w)
   \<and> (c \<notin> set (client_sockets w) \<longrightarrow> client_sockets (erase_client c w) = client_sockets w)
   \<and> errors (events_since w (erase_client c (erase_client c w))) = []
   \<and> sends (events_since w (erase_client c (erase_client c w))) = []"
proof -
  have ev: "events_since w (erase_client c (erase_client c w)) = [Lock, Unlock, Lock, Unlock]"
    by (rule events_since_append) (simp add: erase_client_trace)
  show ?thesis
    unfolding ev by (simp add: errors_def cerr_of_def send_of_def)
qed

theorem erase_client_idempotent_witness:
  "7 \<notin> set (client_sockets one_client)
   \<and> client_sockets (erase_client 7 one_client) = client_sockets one_client
   \<and> client_sockets (erase_client 5 (erase_client 5 one_client)) = []
   \<and> client_sockets (erase_client 5 one_client) = []"
  using erase_client_idempotent [of 7 one_client] erase_client_idempotent [of 5 one_client]
  by (simp add: one_client_def)

text \<open>
  C7, as the code has it. Registering a socket appends it to the vector, whatever the
  vector holds, and reports no error; when the registry holds no handle twice and does
  not hold the new one, it still holds no handle twice afterwards.
\<close>

theorem register_client_appends:
  "client_sockets (register_client c w) = client_sockets w @ [c]
   \<and> errors (events_since w (register_client c w)) = []
   \<and> (distinct (client_sockets w) \<and> c \<notin> set (client_sockets w)
        \<longrightarrow> distinct (client_sockets (register_client c w)))"
proof -
  have ev: "events_since w (register_client c w) = [Lock, Unlock]"
    by (rule events_since_append) (simp add: register_client_def emit_def)
  show ?thesis
    unfolding ev by (simp add: errors_def cerr_of_def register_client_def emit_def)
qed

theorem register_client_appends_witness:
  "distinct (client_sockets one_client) \<and> 7 \<notin> set (client_sockets one_client)
   \<and> client_sockets (register_client 7 one_client) = [5, 7]
   \<and> distinct (client_sockets (register_client 7 one_client))"
  using register_client_appends [of 7 one_client]
  by (simp add: one_client_def)

text \<open>
  C7, as stated, fails: registering handle 5 when handle 5 is registered reports nothing
  and leaves the registry holding it twice.
\<close>

theorem register_client_duplicate_counterexample:
  "client_sockets one_client = [5]
   \<and> client_sockets (register_client 5 one_client) = [5, 5]
   \<and> errors (events_since one_client (register_client 5 one_client)) = []"
  by (simp add: one_client_def register_client_def emit_def events_since_def errors_def
      cerr_of_def)

section \<open>Properties of the accept loop\<close>

lemma accept_iter_failure:
  "accept_iter E INVALID_SOCKET w =
     emit (Cerr (''Accept failed with error: ''
                 @ to_string_int (last_error E (Suc (length (trace w))))))
       (emit (Accept INVALID_SOCKET) w)"
  by (simp add: accept_iter_def Let_def)

lemma accept_iter_trace_grows: "\<exists>es. trace (accept_iter E c w) = trace w @ Accept c # es \<and> accepts es = []"
  by (simp add: accept_iter_def Let_def register_client_def emit_def accepts_def accept_of_def)

lemma accepts_append [simp]: "accepts (xs @ ys) = accepts xs @ accepts ys"
  by (simp add: accepts_def)

lemma accept_loop_accepts:
  "accepts (trace (fst (accept_loop E script w))) = accepts (trace w) @ script"
proof (induction script arbitrary: w)
  case Nil
  show ?case by simp
next
  case (Cons c script)
  obtain es where "trace (accept_iter E c w) = trace w @ Accept c # es" and "accepts es = []"
    using accept_iter_trace_grows by blast
  then have "accepts (trace (accept_iter E c w)) = accepts (trace w) @ [c]"
    by (simp add: accepts_def accept_of_def)
  with Cons show ?case by simp
qed

lemma accept_loop_blocked: "snd (accept_loop E script w) = Blocked"
  by (induction script arbitrary: w) simp_all

text \<open>
  C9, as the code has it. When \<^verbatim>\<open>accept\<close> returns \<^verbatim>\<open>INVALID_SOCKET\<close> the
  iteration writes the error to \<^verbatim>\<open>std::cerr\<close>, registers nothing, starts no handler,
  and the loop goes on with the next \<^verbatim>\<open>accept\<close>; whatever the results of
  \<^verbatim>\<open>accept\<close> are, the loop calls \<^verbatim>\<open>accept\<close> again after each of them and never
  returns.
\<close>

theorem accept_failure_continues:
  "accept_loop E (INVALID_SOCKET # rest) w = accept_loop E rest (accept_iter E INVALID_SOCKET w)
   \<and> client_sockets (accept_iter E INVALID_SOCKET w) = client_sockets w
   \<and> events_since w (accept_iter E INVALID_SOCKET w)
       = [Accept INVALID_SOCKET,
          Cerr (''Accept failed with error: ''
                @ to_string_int (last_error E (Suc (length (trace w)))))]
   \<and> spawns (events_since w (accept_iter E INVALID_SOCKET w)) = []
   \<and> snd (accept_loop E script w) = Blocked
   \<and> accepts (trace (fst (accept_loop E script w))) = accepts (trace w) @ script"
proof -
  have ev: "events_since w (accept_iter E INVALID_SOCKET w)
       = [Accept INVALID_SOCKET,
          Cerr (''Accept failed with error: ''
                @ to_string_int (last_error E (Suc (length (trace w)))))]"
    by (rule events_since_append) (simp add: accept_iter_failure)
  show ?thesis
    unfolding ev
    by (simp add: accept_loop_blocked accept_loop_accepts accept_iter_failure
        spawns_def spawn_of_def)
qed

text \<open>
  C9, as stated, fails: when \<^verbatim>\<open>accept\<close> fails with \<^verbatim>\<open>WSAENOTSOCK\<close> (the listening
  socket is closed) the loop logs the error and calls \<^verbatim>\<open>accept\<close> again.
\<close>

theorem accept_fatal_error_counterexample:
  "snd (accept_loop closed_listener [INVALID_SOCKET, INVALID_SOCKET] one_client) = Blocked
   \<and> trace (fst (accept_loop closed_listener [INVALID_SOCKET, INVALID_SOCKET] one_client))
       = [Accept INVALID_SOCKET, Cerr ''Accept failed with error: 10038'',
          Accept INVALID_SOCKET, Cerr ''Accept failed with error: 10038'']"
  by (simp add: accept_iter_failure one_client_def closed_listener_def to_string_int_10038)


section \<open>Properties of the running system\<close>

text \<open>
  The steps of a handler, taken one after the other, are the body of
  \<^verbatim>\<open>handle_client\<close>.
\<close>

lemma handler_step_relay:
  "0 < fst r \<Longrightarrow> handler_step E c Receiving r w = (fst (handle_client E c [r] w), Receiving)"
  by (simp add: Let_def)

lemma handler_steps_disconnect:
  "fst r \<le> 0 \<Longrightarrow>
   fst (handler_step E c Notified r3
     (fst (handler_step E c Erased r2 (fst (handler_step E c Receiving r w)))))
   = fst (handle_client E c [r] w)"
  by (simp add: Let_def disconnect_def)

lemma recipients_append [simp]: "recipients (xs @ ys) = recipients xs @ recipients ys"
  by (simp add: recipients_def)

lemma recipients_Nil [simp]: "recipients [] = []"
  by (simp add: recipients_def)

lemma recipients_Cons [simp]: "recipients (e # es) = map fst (send_of e) @ recipients es"
  by (simp add: recipients_def)

lemma recipients_send_each:
  "recipients (send_each_events E m s cs k) = filter (\<lambda>c. c \<noteq> s) cs"
  by (simp add: recipients_def sends_send_each_events comp_def)

lemma handler_step_sockets:
  "set (client_sockets (fst (handler_step E c p r w))) \<subseteq> set (client_sockets w)"
  by (cases p) (auto simp: Let_def)

lemma handler_step_events:
  "\<exists>es. trace (fst (handler_step E c p r w)) = trace w @ es
        \<and> set (recipients es) \<subseteq> set (client_sockets w)"
proof (cases p)
  case Receiving
  show ?thesis
  proof (cases "0 < fst r")
    case True
    with Receiving show ?thesis
      by (auto simp: Let_def relay_trace recipients_send_each send_of_def)
  next
    case False
    with Receiving show ?thesis
      by (simp add: Let_def leave_registry_trace send_of_def)
  qed
next
  case Erased
  then show ?thesis
    by (auto simp: announce_departure_trace recipients_send_each send_of_def)
next
  case Notified
  then show ?thesis by (simp add: send_of_def)
next
  case Finished
  then show ?thesis by simp
qed

lemma accept_iter_sockets:
  "client_sockets (accept_iter E c w)
     = (if c = INVALID_SOCKET then client_sockets w else client_sockets w @ [c])"
  by (simp add: accept_iter_def Let_def register_client_def emit_def)

lemma accept_iter_events:
  "\<exists>es. trace (accept_iter E c w) = trace w @ es \<and> recipients es = []"
  by (simp add: accept_iter_def Let_def register_client_def emit_def send_of_def)

lemma step_sockets:
  "set (client_sockets (shared (step E a S)))
     \<subseteq> set (client_sockets (shared S)) \<union> (case a of MainAccept c \<Rightarrow> {c} | HandlerStep i r \<Rightarrow> {})"
proof (cases a)
  case (MainAccept c)
  then show ?thesis by (auto simp: accept_iter_sockets)
next
  case (HandlerStep i r)
  show ?thesis
  proof (cases "i < length (handlers S)")
    case True
    obtain c p where h: "handlers S ! i = (c, p)" by (cases "handlers S ! i")
    obtain w' p' where hs: "handler_step E c p r (shared S) = (w', p')"
      by (cases "handler_step E c p r (shared S)")
    have "set (client_sockets w') \<subseteq> set (client_sockets (shared S))"
      using handler_step_sockets [of E c p r "shared S"] hs by simp
    with HandlerStep True h hs show ?thesis by simp
  next
    case False
    with HandlerStep show ?thesis by simp
  qed
qed

lemma step_events:
  "\<exists>es. trace (shared (step E a S)) = trace (shared S) @ es
        \<and> set (recipients es) \<subseteq> set (client_sockets (shared S))"
proof (cases a)
  case (MainAccept c)
  obtain es where "trace (accept_iter E c (shared S)) = trace (shared S) @ es" "recipients es = []"
    using accept_iter_events by blast
  with MainAccept show ?thesis by simp
next
  case (HandlerStep i r)
  show ?thesis
  proof (cases "i < length (handlers S)")
    case True
    obtain c p where h: "handlers S ! i = (c, p)" by (cases "handlers S ! i")
    obtain w' p' where hs: "handler_step E c p r (shared S) = (w', p')"
      by (cases "handler_step E c p r (shared S)")
    obtain es where "trace w' = trace (shared S) @ es"
        "set (recipients es) \<subseteq> set (client_sockets (shared S))"
      using handler_step_events [of E c p r "shared S"] hs by auto
    with HandlerStep True h hs show ?thesis by simp
  next
    case False
    with HandlerStep show ?thesis by simp
  qed
qed

lemma run_not_targeted:
  "d \<notin> set (client_sockets (shared S)) \<Longrightarrow> MainAccept d \<notin> set acts \<Longrightarrow>
   \<exists>es. trace (shared (run E acts S)) = trace (shared S) @ es
        \<and> d \<notin> set (recipients es)
        \<and> d \<notin> set (client_sockets (shared (run E acts S)))"
proof (induction acts arbitrary: S)
  case Nil
  then show ?case by simp
next
  case (Cons a acts)
  from Cons.prems have a: "a \<noteq> MainAccept d" and rest: "MainAccept d \<notin> set acts"
    by auto
  obtain es1 where es1: "trace (shared (step E a S)) = trace (shared S) @ es1"
      "set (recipients es1) \<subseteq> set (client_sockets (shared S))"
    using step_events by blast
  have away: "d \<notin> set (client_sockets (shared (step E a S)))"
    using step_sockets [of E a S] Cons.prems(1) a by (cases a) auto
  from Cons.IH [OF away rest]
  obtain es2 where es2: "trace (shared (run E acts (step E a S))) = trace (shared (step E a S)) @ es2"
      "d \<notin> set (recipients es2)"
      "d \<notin> set (client_sockets (shared (run E acts (step E a S))))"
    by blast
  have "trace (shared (run E (a # acts) S)) = trace (shared S) @ (es1 @ es2)"
    using es1(1) es2(1) by simp
  moreover have "d \<notin> set (recipients (es1 @ es2))"
    using es1(2) es2(2) Cons.prems(1) by auto
  ultimately show ?case using es2(3) by auto
qed

lemma step_leaves:
  assumes "i < length (handlers S)" and "handlers S ! i = (c, Receiving)" and "fst r \<le> 0"
  shows "client_sockets (shared (step E (HandlerStep i r) S)) = removeAll c (client_sockets (shared S))"
    and "handlers (step E (HandlerStep i r) S) = (handlers S)[i := (c, Erased)]"
  using assms by (simp_all add: Let_def)

lemma in_set_update_other: "x \<in> set xs \<Longrightarrow> xs ! i \<noteq> x \<Longrightarrow> x \<in> set (xs[i := y])"
proof -
  assume "x \<in> set xs" and ne: "xs ! i \<noteq> x"
  then obtain j where j: "j < length xs" "xs ! j = x"
    by (auto simp: in_set_conv_nth)
  with ne have "j \<noteq> i" by auto
  with j have "(xs[i := y]) ! j = x" "j < length (xs[i := y])" by simp_all
  then show ?thesis by (metis nth_mem)
qed

lemma open_handles_member:
  "d \<in> set (open_handles S) \<longleftrightarrow> (\<exists>p. (d, p) \<in> set (handlers S) \<and> p \<noteq> Finished)"
  by (force simp: open_handles_def)

lemma registry_ok_initial: "registry_ok initial"
  by (simp add: registry_ok_def initial_def)

lemma registry_ok_accept:
  assumes ok: "registry_ok S" and fresh: "c = INVALID_SOCKET \<or> c \<notin> set (open_handles S)"
  shows "registry_ok (step E (MainAccept c) S)"
proof (cases "c = INVALID_SOCKET")
  case True
  with ok show ?thesis by (simp add: registry_ok_def accept_iter_sockets)
next
  case False
  with fresh have "c \<notin> set (open_handles S)" by simp
  then have "(c, Receiving) \<notin> set (handlers S)"
    by (auto simp: open_handles_member)
  with ok have "c \<notin> set (client_sockets (shared S))"
    by (auto simp: registry_ok_def)
  with ok False show ?thesis
    by (auto simp: registry_ok_def accept_iter_sockets)
qed

lemma registry_ok_handler:
  assumes ok: "registry_ok S"
  shows "registry_ok (step E (HandlerStep i r) S)"
proof (cases "i < length (handlers S)")
  case False
  with ok show ?thesis by simp
next
  case True
  obtain c p where h: "handlers S ! i = (c, p)" by (cases "handlers S ! i")
  show ?thesis
  proof (cases "p = Receiving")
    case True
    note recv = this
    show ?thesis
    proof (cases "0 < fst r")
      case True
      have "(handlers S)[i := (c, Receiving)] = handlers S"
        using h recv by (metis list_update_id)
      with ok \<open>i < length (handlers S)\<close> h recv True show ?thesis
        by (simp add: registry_ok_def Let_def)
    next
      case False
      have "(d, Receiving) \<in> set ((handlers S)[i := (c, Erased)])"
        if "d \<in> set (client_sockets (shared S))" "d \<noteq> c" for d
      proof (rule in_set_update_other)
        show "(d, Receiving) \<in> set (handlers S)" using ok that(1) by (simp add: registry_ok_def)
        show "handlers S ! i \<noteq> (d, Receiving)" using h that(2) by simp
      qed
      with ok \<open>i < length (handlers S)\<close> h recv False show ?thesis
        by (simp add: registry_ok_def Let_def distinct_removeAll)
    qed
  next
    case False
    obtain w' p' where hs: "handler_step E c p r (shared S) = (w', p')"
      by (cases "handler_step E c p r (shared S)")
    have same: "client_sockets w' = client_sockets (shared S)"
      using hs False by (cases p) auto
    have "(d, Receiving) \<in> set ((handlers S)[i := (c, p')])"
      if "d \<in> set (client_sockets (shared S))" for d
    proof (rule in_set_update_other)
      show "(d, Receiving) \<in> set (handlers S)" using ok that by (simp add: registry_ok_def)
      show "handlers S ! i \<noteq> (d, Receiving)" using h False by simp
    qed
    with ok \<open>i < length (handlers S)\<close> h hs same show ?thesis
      by (simp add: registry_ok_def)
  qed
qed

lemma registry_ok_run:
  "fresh_accepts E acts S \<Longrightarrow> registry_ok S \<Longrightarrow> registry_ok (run E acts S)"
proof (induction acts arbitrary: S)
  case Nil
  then show ?case by simp
next
  case (Cons a acts)
  have "registry_ok (step E a S)"
  proof (cases a)
    case (MainAccept c)
    with Cons.prems show ?thesis
      using registry_ok_accept [of S c E] by simp
  next
    case (HandlerStep i r)
    with Cons.prems show ?thesis
      using registry_ok_handler [of S E i r] by simp
  qed
  with Cons show ?case by simp
qed

lemma step_keeps_handler:
  assumes "i < length (handlers S)"
  shows "i < length (handlers (step E a S))
    \<and> fst (handlers (step E a S) ! i) = fst (handlers S ! i)
    \<and> (snd (handlers S ! i) = Finished \<longrightarrow> snd (handlers (step E a S) ! i) = Finished)"
proof (cases a)
  case (MainAccept c)
  with assms show ?thesis by (simp add: nth_append)
next
  case (HandlerStep j r)
  show ?thesis
  proof (cases "j < length (handlers S)")
    case False
    with HandlerStep assms show ?thesis by simp
  next
    case True
    obtain c p where h: "handlers S ! j = (c, p)" by (cases "handlers S ! j")
    obtain w' p' where hs: "handler_step E c p r (shared S) = (w', p')"
      by (cases "handler_step E c p r (shared S)")
    have fin: "p = Finished \<Longrightarrow> p' = Finished" using hs by auto
    show ?thesis
      using HandlerStep True h hs assms fin by (cases "i = j") simp_all
  qed
qed

lemma run_finished_stays:
  "i < length (handlers S) \<Longrightarrow> snd (handlers S ! i) = Finished \<Longrightarrow>
   snd (handlers (run E acts S) ! i) = Finished"
proof (induction acts arbitrary: S)
  case Nil
  then show ?case by simp
next
  case (Cons a acts)
  from step_keeps_handler [OF Cons.prems(1), of E a] Cons.prems(2)
  have "i < length (handlers (step E a S))" "snd (handlers (step E a S) ! i) = Finished"
    by simp_all
  from Cons.IH [OF this] show ?case by simp
qed

lemma fresh_no_reaccept:
  "fresh_accepts E acts S \<Longrightarrow> i < length (handlers S) \<Longrightarrow> fst (handlers S ! i) = c \<Longrightarrow>
   c \<noteq> INVALID_SOCKET \<Longrightarrow> snd (handlers (run E acts S) ! i) \<noteq> Finished \<Longrightarrow>
   MainAccept c \<notin> set acts"
proof (induction acts arbitrary: S)
  case Nil
  then show ?case by simp
next
  case (Cons a acts)
  have live: "snd (handlers S ! i) \<noteq> Finished"
    using run_finished_stays [OF Cons.prems(2), of E "a # acts"] Cons.prems(5) by blast
  obtain p where hp: "handlers S ! i = (c, p)"
    using Cons.prems(3) by (metis prod.collapse)
  have "(c, p) \<in> set (handlers S)"
    using Cons.prems(2) hp by (metis nth_mem)
  moreover have "p \<noteq> Finished"
    using live hp by simp
  ultimately have "c \<in> set (open_handles S)"
    unfolding open_handles_member by blast
  with Cons.prems(1,4) have a: "a \<noteq> MainAccept c"
    by auto
  note keep = step_keeps_handler [OF Cons.prems(2), of E a]
  have "MainAccept c \<notin> set acts"
  proof (rule Cons.IH)
    show "fresh_accepts E acts (step E a S)" using Cons.prems(1) by simp
    show "i < length (handlers (step E a S))" using keep by simp
    show "fst (handlers (step E a S) ! i) = c" using keep Cons.prems(3) by simp
    show "c \<noteq> INVALID_SOCKET" by fact
    show "snd (handlers (run E acts (step E a S)) ! i) \<noteq> Finished" using Cons.prems(5) by simp
  qed
  with a show ?case by simp
qed


lemma client_ids:
  "client_id 1 = ''Client 1''" "client_id 3 = ''Client 3''"
  by (simp_all add: client_id_def to_string_def to_string_nat.simps digit_char_def)

lemma three_sessions_run:
  "recipients (events_since (shared three_sessions)
      (shared (run flaky (HandlerStep 1 eof # after_leaving) three_sessions)))
   = [3, 1, 3, 1, 7]"
  by (simp add: after_leaving_def three_sessions_def three_clients_def eof_def chunk_hello_def
      flaky_def Let_def relay_def leave_registry_def erase_client_def announce_departure_def
      accept_iter_def register_client_def broadcast_message_def send_one_def emit_def
      client_ids client_id_2 INVALID_SOCKET_def SOCKET_ERROR_def events_since_def send_of_def)

lemma announce_departure_recipients:
  "INVALID_SOCKET \<notin> set (client_sockets w) \<Longrightarrow>
   recipients (events_since w (announce_departure E c w)) = client_sockets w"
  by (simp add: announce_departure_def recipients_broadcast filter_valid)

text \<open>
  C5. Once a handler has erased its socket from the registry, no \<^verbatim>\<open>send\<close> of any
  later step of the system, whatever the other threads do, has that socket as its target,
  and the socket stays out of the registry. The later steps are any in which
  \<^verbatim>\<open>accept\<close> does not return the same handle value again, which would be a new
  connection; \<open>fresh_no_reaccept\<close> shows that the transport cannot return it before the
  handler has closed the socket.
\<close>

theorem removed_connection_not_targeted:
  assumes "i < length (handlers S)" and "handlers S ! i = (c, Receiving)" and "fst r \<le> 0"
    and "MainAccept c \<notin> set acts"
  shows "c \<notin> set (client_sockets (shared (step E (HandlerStep i r) S)))
    \<and> c \<notin> set (recipients (events_since (shared S) (shared (run E (HandlerStep i r # acts) S))))
    \<and> c \<notin> set (client_sockets (shared (run E (HandlerStep i r # acts) S)))"
proof -
  let ?S1 = "step E (HandlerStep i r) S"
  have gone: "c \<notin> set (client_sockets (shared ?S1))"
    using step_leaves(1) [OF assms(1-3)] by simp
  have first: "trace (shared ?S1)
      = trace (shared S) @ [Recv c (fst r), Cout (client_id c @ '' disconnected.''), Lock, Unlock]"
    using assms(1-3) by (simp add: Let_def leave_registry_trace)
  obtain es where es: "trace (shared (run E acts ?S1)) = trace (shared ?S1) @ es"
      "c \<notin> set (recipients es)" "c \<notin> set (client_sockets (shared (run E acts ?S1)))"
    using run_not_targeted [OF gone assms(4)] by blast
  have "events_since (shared S) (shared (run E (HandlerStep i r # acts) S))
      = [Recv c (fst r), Cout (client_id c @ '' disconnected.''), Lock, Unlock] @ es"
    by (rule events_since_append) (simp add: es(1) first del: step.simps)
  then show ?thesis
    using gone es(2,3) by (simp add: send_of_def del: step.simps)
qed


theorem removed_connection_not_targeted_witness:
  "1 < length (handlers three_sessions) \<and> handlers three_sessions ! 1 = (2, Receiving)
   \<and> fst eof \<le> 0 \<and> MainAccept 2 \<notin> set after_leaving
   \<and> recipients (events_since (shared three_sessions)
        (shared (run flaky (HandlerStep 1 eof # after_leaving) three_sessions)))
      = [3, 1, 3, 1, 7]
   \<and> 2 \<notin> set (recipients (events_since (shared three_sessions)
        (shared (run flaky (HandlerStep 1 eof # after_leaving) three_sessions))))
   \<and> 2 \<notin> set (client_sockets
        (shared (run flaky (HandlerStep 1 eof # after_leaving) three_sessions)))"
proof -
  have h: "1 < length (handlers three_sessions)" "handlers three_sessions ! 1 = (2, Receiving)"
      "fst eof \<le> 0" "MainAccept 2 \<notin> set after_leaving"
    by (simp_all add: three_sessions_def eof_def after_leaving_def)
  show ?thesis
    using removed_connection_not_targeted [OF h, of flaky] h three_sessions_run
    by (simp del: run.simps step.simps)
qed

lemma step_keeps_valid:
  "INVALID_SOCKET \<notin> set (client_sockets (shared S)) \<Longrightarrow>
   INVALID_SOCKET \<notin> set (client_sockets (shared (step E a S)))"
proof (cases a)
  case (MainAccept c)
  assume "INVALID_SOCKET \<notin> set (client_sockets (shared S))"
  with MainAccept show ?thesis by (simp add: accept_iter_sockets)
next
  case (HandlerStep i r)
  assume "INVALID_SOCKET \<notin> set (client_sockets (shared S))"
  with step_sockets [of E a S] HandlerStep show ?thesis by auto
qed

lemma run_keeps_valid:
  "INVALID_SOCKET \<notin> set (client_sockets (shared S)) \<Longrightarrow>
   INVALID_SOCKET \<notin> set (client_sockets (shared (run E acts S)))"
  by (induction acts arbitrary: S) (simp_all add: step_keeps_valid del: step.simps)

lemma step_other_handler:
  assumes "i < length (handlers S)"
    and "case a of MainAccept c \<Rightarrow> True | HandlerStep j r \<Rightarrow> j \<noteq> i"
  shows "i < length (handlers (step E a S)) \<and> handlers (step E a S) ! i = handlers S ! i"
proof (cases a)
  case (MainAccept c)
  with assms show ?thesis by (simp add: nth_append)
next
  case (HandlerStep j r)
  with assms(2) have ne: "j \<noteq> i" by simp
  show ?thesis
  proof (cases "j < length (handlers S)")
    case False
    with HandlerStep assms(1) show ?thesis by simp
  next
    case True
    obtain c p where h: "handlers S ! j = (c, p)" by (cases "handlers S ! j")
    obtain w' p' where hs: "handler_step E c p r (shared S) = (w', p')"
      by (cases "handler_step E c p r (shared S)")
    show ?thesis
      using HandlerStep True h hs assms(1) ne by simp
  qed
qed

lemma run_other_handlers:
  "others i acts \<Longrightarrow> i < length (handlers S) \<Longrightarrow>
   i < length (handlers (run E acts S)) \<and> handlers (run E acts S) ! i = handlers S ! i"
proof (induction acts arbitrary: S)
  case Nil
  then show ?case by simp
next
  case (Cons a acts)
  from Cons.prems(1) have a: "case a of MainAccept c \<Rightarrow> True | HandlerStep j r \<Rightarrow> j \<noteq> i"
    and rest: "others i acts"
    by (simp_all add: others_def)
  note one = step_other_handler [OF Cons.prems(2) a, of E]
  from Cons.IH [OF rest, of "step E a S"] one
  show ?case by simp
qed

lemma run_keeps_handler:
  "i < length (handlers S) \<Longrightarrow>
   i < length (handlers (run E acts S))
   \<and> fst (handlers (run E acts S) ! i) = fst (handlers S ! i)"
proof (induction acts arbitrary: S)
  case Nil
  then show ?case by simp
next
  case (Cons a acts)
  note keep = step_keeps_handler [OF Cons.prems, of E a]
  from keep have "i < length (handlers (step E a S))" by simp
  from Cons.IH [OF this] keep show ?case by simp
qed

lemma step_erased:
  assumes "i < length (handlers S)" and "handlers S ! i = (c, Erased)"
  shows "shared (step E (HandlerStep i r) S) = announce_departure E c (shared S)"
    and "handlers (step E (HandlerStep i r) S) = (handlers S)[i := (c, Notified)]"
  using assms by simp_all

lemma step_notified:
  assumes "i < length (handlers S)" and "handlers S ! i = (c, Notified)"
  shows "shared (step E (HandlerStep i r) S) = emit (CloseSocket c) (shared S)"
    and "handlers (step E (HandlerStep i r) S) = (handlers S)[i := (c, Finished)]"
  using assms by simp_all

lemma step_finished:
  assumes "i < length (handlers S)" and "handlers S ! i = (c, Finished)"
  shows "step E (HandlerStep i r) S = S"
proof -
  have "(handlers S)[i := (c, Finished)] = handlers S"
    using assms(2) by (metis list_update_id)
  with assms show ?thesis by simp
qed

lemmas gap_defs =
  gap_closed_def gap_before_close_def gap_notified_def gap_before_notice_def gap_erased_def

lemmas sample_run_defs =
  in_the_gap_def after_notice_def three_sessions_def three_clients_def eof_def chunk_hello_def
  flaky_def Let_def relay_def leave_registry_def erase_client_def announce_departure_def
  accept_iter_def register_client_def broadcast_message_def send_one_def emit_def
  client_ids client_id_2 INVALID_SOCKET_def SOCKET_ERROR_def events_since_def send_of_def

lemma gap_registry:
  "client_sockets (shared gap_erased) = [1, 3]"
  "client_sockets (shared gap_before_notice) = [1, 7]"
  by (simp_all add: gap_defs sample_run_defs)

lemma gap_notice:
  "recipients (events_since (shared gap_before_notice) (shared gap_notified)) = [1, 7]"
  by (simp add: gap_defs sample_run_defs)

text \<open>
  C2. A session whose \<^verbatim>\<open>recv\<close> returns 0 or less, in any run of the system, with
  any steps of the other threads in between its own. Its first step erases its socket
  from the registry and sends nothing. Its second step is one broadcast of the departure
  notice, sent once to each socket registered at that moment and to no other; its own
  socket is not among them unless \<^verbatim>\<open>accept\<close> has returned the same handle again in
  between. Its third step closes the socket. From then on a step of this handler does
  nothing, in whatever state the system is: no \<^verbatim>\<open>recv\<close>, no broadcast. The registry
  is taken to hold no \<^verbatim>\<open>INVALID_SOCKET\<close>, which the accept loop never registers.
\<close>

theorem closing_session:
  fixes S :: system and E :: env and i :: nat and c :: SOCKET
    and r r2 r3 :: recv_result and acts1 acts2 :: "action list"
  assumes i: "i < length (handlers S)" and at: "handlers S ! i = (c, Receiving)"
    and r: "fst r \<le> 0"
    and valid: "INVALID_SOCKET \<notin> set (client_sockets (shared S))"
    and o1: "others i acts1" and o2: "others i acts2"
  defines "S1 \<equiv> step E (HandlerStep i r) S"
  defines "S2 \<equiv> run E acts1 S1"
  defines "S3 \<equiv> step E (HandlerStep i r2) S2"
  defines "S4 \<equiv> run E acts2 S3"
  defines "S5 \<equiv> step E (HandlerStep i r3) S4"
  shows "events_since (shared S) (shared S1)
           = [Recv c (fst r), Cout (client_id c @ '' disconnected.''), Lock, Unlock]
    \<and> client_sockets (shared S1) = removeAll c (client_sockets (shared S))
    \<and> (MainAccept c \<notin> set acts1 \<longrightarrow> c \<notin> set (client_sockets (shared S2)))
    \<and> (\<exists>es. events_since (shared S2) (shared S3) = [Lock] @ es @ [Unlock]
              \<and> list_all is_send_or_log es
              \<and> sends es = map (\<lambda>d. (d, client_id c @ '' has left the chat.''))
                             (client_sockets (shared S2)))
    \<and> (distinct (client_sockets (shared S2)) \<longrightarrow>
         (\<forall>d \<in> set (client_sockets (shared S2)).
            count_list (recipients (events_since (shared S2) (shared S3))) d = 1))
    \<and> client_sockets (shared S3) = client_sockets (shared S2)
    \<and> events_since (shared S4) (shared S5) = [CloseSocket c]
    \<and> client_sockets (shared S5) = client_sockets (shared S4)
    \<and> handlers S5 ! i = (c, Finished)
    \<and> (\<forall>acts3 r4. step E (HandlerStep i r4) (run E acts3 S5) = run E acts3 S5)"
proof -
  let ?msg = "client_id c @ '' has left the chat.''"
  have ev1: "events_since (shared S) (shared S1)
      = [Recv c (fst r), Cout (client_id c @ '' disconnected.''), Lock, Unlock]"
    unfolding S1_def
    by (rule events_since_append) (use i at r in \<open>simp add: Let_def leave_registry_trace\<close>)
  have reg1: "client_sockets (shared S1) = removeAll c (client_sockets (shared S))"
    unfolding S1_def by (rule step_leaves(1) [OF i at r])
  have h1: "i < length (handlers S1)" "handlers S1 ! i = (c, Erased)"
    unfolding S1_def using step_leaves(2) [OF i at r, of E] i by simp_all
  have h2: "i < length (handlers S2)" "handlers S2 ! i = (c, Erased)"
    unfolding S2_def using run_other_handlers [OF o1 h1(1), of E] h1(2) by simp_all
  have gone: "c \<notin> set (client_sockets (shared S2))" if "MainAccept c \<notin> set acts1"
  proof -
    have "c \<notin> set (client_sockets (shared S1))" using reg1 by simp
    from run_not_targeted [OF this that, of E] show ?thesis
      unfolding S2_def by blast
  qed
  have valid2: "INVALID_SOCKET \<notin> set (client_sockets (shared S2))"
    unfolding S2_def S1_def using valid by (intro run_keeps_valid step_keeps_valid)
  have sh3: "shared S3 = announce_departure E c (shared S2)"
    unfolding S3_def by (rule step_erased(1) [OF h2])
  let ?es = "send_each_events E ?msg (- 1) (client_sockets (shared S2))
               (Suc (length (trace (shared S2))))"
  have ev3: "events_since (shared S2) (shared S3) = [Lock] @ ?es @ [Unlock]"
    unfolding sh3 by (rule events_since_append) (simp add: announce_departure_trace)
  have s3: "sends ?es = map (\<lambda>d. (d, ?msg)) (client_sockets (shared S2))"
    by (simp add: sends_send_each_events filter_valid [OF valid2])
  have ex: "\<exists>es. events_since (shared S2) (shared S3) = [Lock] @ es @ [Unlock]
              \<and> list_all is_send_or_log es
              \<and> sends es = map (\<lambda>d. (d, ?msg)) (client_sockets (shared S2))"
    using ev3 s3 send_each_events_kind by blast
  have rc: "recipients (events_since (shared S2) (shared S3)) = client_sockets (shared S2)"
    unfolding sh3 by (rule announce_departure_recipients [OF valid2])
  have reg3: "client_sockets (shared S3) = client_sockets (shared S2)"
    unfolding sh3 by simp
  have h3: "i < length (handlers S3)" "handlers S3 ! i = (c, Notified)"
    unfolding S3_def using step_erased(2) [OF h2, of E] h2(1) by simp_all
  have h4: "i < length (handlers S4)" "handlers S4 ! i = (c, Notified)"
    unfolding S4_def using run_other_handlers [OF o2 h3(1), of E] h3(2) by simp_all
  have sh5: "shared S5 = emit (CloseSocket c) (shared S4)"
    unfolding S5_def by (rule step_notified(1) [OF h4])
  have ev5: "events_since (shared S4) (shared S5) = [CloseSocket c]"
    unfolding sh5 by (rule events_since_append) simp
  have reg5: "client_sockets (shared S5) = client_sockets (shared S4)"
    unfolding sh5 by simp
  have h5: "i < length (handlers S5)" "handlers S5 ! i = (c, Finished)"
    unfolding S5_def using step_notified(2) [OF h4, of E] h4(1) by simp_all
  have idle: "step E (HandlerStep i r4) (run E acts3 S5) = run E acts3 S5" for acts3 r4
  proof -
    have "i < length (handlers (run E acts3 S5))"
      and "fst (handlers (run E acts3 S5) ! i) = c"
      using run_keeps_handler [OF h5(1), of E acts3] h5(2) by simp_all
    moreover have "snd (handlers (run E acts3 S5) ! i) = Finished"
      using run_finished_stays [OF h5(1), of E acts3] h5(2) by simp
    ultimately have "handlers (run E acts3 S5) ! i = (c, Finished)"
      by (metis prod.collapse)
    with \<open>i < length (handlers (run E acts3 S5))\<close> show ?thesis
      by (rule step_finished)
  qed
  have cnt: "count_list (recipients (events_since (shared S2) (shared S3))) d = 1"
    if "distinct (client_sockets (shared S2))" "d \<in> set (client_sockets (shared S2))" for d
    unfolding rc using that by (simp add: count_list_distinct)
  show ?thesis
    using ev1 reg1 gone ex cnt reg3 ev5 reg5 h5(2) idle by blast
qed


theorem closing_session_witness:
  "1 < length (handlers three_sessions) \<and> handlers three_sessions ! 1 = (2, Receiving)
   \<and> fst eof \<le> 0 \<and> INVALID_SOCKET \<notin> set (client_sockets (shared three_sessions))
   \<and> others 1 in_the_gap \<and> others 1 after_notice \<and> MainAccept 2 \<notin> set in_the_gap
   \<and> distinct (client_sockets (shared gap_before_notice))
   \<and> client_sockets (shared gap_erased) = [1, 3]
   \<and> client_sockets (shared gap_before_notice) = [1, 7]
   \<and> recipients (events_since (shared gap_before_notice) (shared gap_notified)) = [1, 7]
   \<and> count_list (recipients (events_since (shared gap_before_notice) (shared gap_notified))) 7
      = 1
   \<and> events_since (shared gap_before_close) (shared gap_closed) = [CloseSocket 2]
   \<and> handlers gap_closed ! 1 = (2, Finished)
   \<and> step flaky (HandlerStep 1 chunk_hello) gap_closed = gap_closed"
proof -
  have h: "1 < length (handlers three_sessions)" "handlers three_sessions ! 1 = (2, Receiving)"
      "fst eof \<le> 0" "INVALID_SOCKET \<notin> set (client_sockets (shared three_sessions))"
      "others 1 in_the_gap" "others 1 after_notice"
    by (simp_all add: three_sessions_def three_clients_def eof_def in_the_gap_def
        after_notice_def others_def INVALID_SOCKET_def)
  have fresh: "MainAccept 2 \<notin> set in_the_gap"
    by (simp add: in_the_gap_def)
  note T = closing_session [OF h, where E = flaky and ?r2.0 = eof and ?r3.0 = eof,
      folded gap_erased_def, folded gap_before_notice_def, folded gap_notified_def,
      folded gap_before_close_def, folded gap_closed_def]
  have close: "events_since (shared gap_before_close) (shared gap_closed) = [CloseSocket 2]"
    and fin: "handlers gap_closed ! 1 = (2, Finished)"
    and all: "\<forall>acts3 r4. step flaky (HandlerStep 1 r4) (run flaky acts3 gap_closed)
                = run flaky acts3 gap_closed"
    using T by blast+
  from all have "step flaky (HandlerStep 1 chunk_hello) (run flaky [] gap_closed)
      = run flaky [] gap_closed"
    by blast
  then have idle: "step flaky (HandlerStep 1 chunk_hello) gap_closed = gap_closed"
    by (simp del: step.simps)
  show ?thesis
    using h fresh gap_registry gap_notice close fin idle by (simp del: step.simps)
qed

section \<open>Properties of the client's \<^verbatim>\<open>send_messages\<close>\<close>

lemma lines_read_append [simp]: "lines_read (xs @ ys) = lines_read xs @ lines_read ys"
  by (simp add: lines_read_def)

lemma lines_read_Nil [simp]: "lines_read [] = []"
  by (simp add: lines_read_def)

lemma lines_read_Cons [simp]: "lines_read (e # es) = readline_of e @ lines_read es"
  by (simp add: lines_read_def)

lemma getline_line: "getline cin = Some (line, rest) \<Longrightarrow> CHR 0x0A \<notin> set line"
  by (cases cin) (auto dest: set_takeWhileD)

lemma all_lines_Some: "getline cin = Some (line, rest) \<Longrightarrow> all_lines cin = line # all_lines rest"
  by (subst all_lines.simps) simp

lemma all_lines_None: "getline cin = None \<Longrightarrow> all_lines cin = []"
  by (subst all_lines.simps) simp

lemma send_loop_shape: "\<exists>es. send_loop E sock cin t = t @ es \<and> loop_ok E sock cin es"
proof (induction E sock cin t rule: send_loop.induct)
  case (1 E sock cin t)
  show ?case
  proof (cases "getline cin")
    case None
    then have "send_loop E sock cin t = t @ []"
      by (subst send_loop.simps) simp
    moreover have "loop_ok E sock cin []"
      by (simp add: loop_ok_def all_lines_None [OF None])
    ultimately show ?thesis by blast
  next
    case (Some p)
    obtain line rest where p: "p = (line, rest)" by (cases p)
    have g: "getline cin = Some (line, rest)" using Some p by simp
    note nl = getline_line [OF g]
    note al = all_lines_Some [OF g]
    show ?thesis
    proof (cases "line = []")
      case True
      let ?t' = "t @ [ReadLine line] @ [Cout ''> '']"
      have unf: "send_loop E sock cin t = send_loop E sock rest ?t'"
        using g True by (subst send_loop.simps) simp
      from "1.IH"(2) [OF g refl refl] True
      obtain es where es: "send_loop E sock rest ?t' = ?t' @ es" "loop_ok E sock rest es"
        by auto
      have "send_loop E sock cin t = t @ ([ReadLine line, Cout ''> ''] @ es)"
        using unf es(1) by simp
      moreover have "loop_ok E sock cin ([ReadLine line, Cout ''> ''] @ es)"
        using es(2) True al
        by (simp add: loop_ok_def send_of_def readline_of_def)
      ultimately show ?thesis by blast
    next
      case False
      let ?r = "send_ret E (Suc (length t))"
      show ?thesis
      proof (cases "?r = SOCKET_ERROR")
        case True
        let ?es = "[ReadLine line, Send sock line ?r,
                    Cerr (''Send failed with error: ''
                          @ to_string_int (last_error E (Suc (Suc (length t)))))]"
        have "send_loop E sock cin t = t @ ?es"
          using g False True by (subst send_loop.simps) (simp add: Let_def)
        moreover have "loop_ok E sock cin ?es"
          using False nl al True
          by (auto simp add: loop_ok_def send_of_def readline_of_def)
        ultimately show ?thesis by blast
      next
        case ok: False
        let ?t' = "((t @ [ReadLine line]) @ [Send sock line (send_ret E (length (t @ [ReadLine line])))]) @ [Cout ''> '']"
        have unf: "send_loop E sock cin t = send_loop E sock rest ?t'"
          using g False ok by (subst send_loop.simps) (simp add: Let_def)
        from "1.IH"(1) [OF g refl refl False refl refl] ok
        obtain es where es: "send_loop E sock rest ?t' = ?t' @ es" "loop_ok E sock rest es"
          by auto
        have "send_loop E sock cin t = t @ ([ReadLine line, Send sock line ?r, Cout ''> ''] @ es)"
          using unf es(1) by simp
        moreover have "loop_ok E sock cin ([ReadLine line, Send sock line ?r, Cout ''> ''] @ es)"
          using es(2) False al nl
          by (simp add: loop_ok_def send_of_def readline_of_def)
        ultimately show ?thesis by blast
      qed
    qed
  qed
qed


lemma typed_run:
  "send_messages reliable 4 typed [] =
     [Cout ''> '', ReadLine ''hi'', Send 4 ''hi'' 2, Cout ''> '', ReadLine [], Cout ''> '',
      ReadLine ''yo'', Send 4 ''yo'' 2, Cout ''> '']"
  by (simp add: send_messages_def send_loop.simps typed_def reliable_def Let_def SOCKET_ERROR_def)

lemma typed_lines: "all_lines typed = [''hi'', [], ''yo'']"
  by (simp add: all_lines.simps typed_def)

text \<open>
  C10. The payloads the client's loop sends are, in order, the non-empty lines it read,
  each to the server's socket and each free of the newline that ended it; an empty line
  is read and not sent. The lines read are the leading lines of standard input, and all
  of its lines when no \<^verbatim>\<open>send\<close> fails.
\<close>

theorem send_messages_nonempty_lines:
  "sends (drop (length t) (send_messages E sock cin t))
     = map (\<lambda>l. (sock, l))
         (filter (\<lambda>l. l \<noteq> []) (lines_read (drop (length t) (send_messages E sock cin t))))
   \<and> (\<forall>l \<in> set (lines_read (drop (length t) (send_messages E sock cin t))).
         CHR 0x0A \<notin> set l)
   \<and> lines_read (drop (length t) (send_messages E sock cin t))
       = take (length (lines_read (drop (length t) (send_messages E sock cin t))))
           (all_lines cin)
   \<and> ((\<forall>k. send_ret E k \<noteq> SOCKET_ERROR) \<longrightarrow>
         lines_read (drop (length t) (send_messages E sock cin t)) = all_lines cin)"
proof -
  obtain es where es: "send_loop E sock cin (t @ [Cout ''> '']) = (t @ [Cout ''> '']) @ es"
    and ok: "loop_ok E sock cin es"
    using send_loop_shape by blast
  have new: "drop (length t) (send_messages E sock cin t) = Cout ''> '' # es"
    by (simp add: send_messages_def es)
  show ?thesis
    unfolding new using ok by (simp add: loop_ok_def send_of_def readline_of_def)
qed

theorem send_messages_nonempty_lines_witness:
  "(\<forall>k. send_ret reliable k \<noteq> SOCKET_ERROR)
   \<and> sends (drop (length []) (send_messages reliable 4 typed [])) = [(4, ''hi''), (4, ''yo'')]
   \<and> lines_read (drop (length []) (send_messages reliable 4 typed [])) = [''hi'', [], ''yo'']
   \<and> all_lines typed = [''hi'', [], ''yo'']"
  using send_messages_nonempty_lines [of "[]" reliable 4 typed]
  unfolding typed_run typed_lines
  by (simp add: reliable_def SOCKET_ERROR_def send_of_def readline_of_def)


end
